theory Spec2Isabelle
  imports Main "HOL-Library.AList"
begin

section \<open>The cache service (src/services/cacheService.js)\<close>

subsection \<open>JavaScript \<open>Map\<close>: a mapping that remembers insertion order\<close>

text \<open>
  A JavaScript \<open>Map\<close> iterates its keys in insertion order; \<open>set\<close> on a key that is
  already present replaces the value and keeps the key's position, \<open>set\<close> on a new key
  appends it. The model is an association list, oldest key first.
\<close>

type_synonym ('k, 'v) js_map = "('k \<times> 'v) list"

definition map_get :: "('k, 'v) js_map \<Rightarrow> 'k \<Rightarrow> 'v option" where
  "map_get m k = map_of m k"

definition map_set :: "'k \<Rightarrow> 'v \<Rightarrow> ('k, 'v) js_map \<Rightarrow> ('k, 'v) js_map" where
  "map_set k v m = AList.update k v m"

definition map_delete :: "'k \<Rightarrow> ('k, 'v) js_map \<Rightarrow> ('k, 'v) js_map" where
  "map_delete k m = AList.delete k m"

definition map_size :: "('k, 'v) js_map \<Rightarrow> nat" where
  "map_size m = length m"

text \<open>\<open>m.keys().next().value\<close>: the first key, \<open>undefined\<close> (here \<open>None\<close>) on an empty map.\<close>

definition first_key :: "('k, 'v) js_map \<Rightarrow> 'k option" where
  "first_key m = (case m of [] \<Rightarrow> None | (k, _) # _ \<Rightarrow> Some k)"

definition map_keys :: "('k, 'v) js_map \<Rightarrow> 'k list" where
  "map_keys m = map fst m"

subsection \<open>Entries, configuration, state\<close>

text \<open>\<open>{ data, expires }\<close>; \<open>Date.now()\<close> is an integer number of milliseconds.\<close>

record 'v cache_entry =
  data :: 'v
  expires :: int

definition responseMaxSize :: nat where "responseMaxSize = 100"
definition responseTTL :: int where "responseTTL = 5 * 60 * 1000"
definition languageMaxSize :: nat where "languageMaxSize = 50"
definition languageTTL :: int where "languageTTL = 2 * 60 * 1000"
definition transcriptMaxSize :: nat where "transcriptMaxSize = 30"
definition transcriptTTL :: int where "transcriptTTL = 1 * 60 * 1000"

text \<open>The lines written by \<open>console.log\<close>, the only effect of the service besides its maps.\<close>

datatype cache_log =
    CacheHitResponse
  | CachedResponse nat nat
  | CacheHitLanguage
  | CacheHitTranscript

record 'v cache_service =
  responseCache :: "(string, 'v cache_entry) js_map"
  languageCache :: "(string, 'v cache_entry) js_map"
  transcriptCache :: "(string, 'v cache_entry) js_map"
  console :: "cache_log list"

text \<open>The constructor: three empty maps.\<close>

definition new_cache_service :: "'v cache_service" where
  "new_cache_service =
     \<lparr>responseCache = [], languageCache = [], transcriptCache = [], console = []\<rparr>"

subsection \<open>Keys\<close>

text \<open>
  \<open>generateKey(input, type)\<close> is \<open>`${type}:${hash}`\<close> with \<open>hash\<close> the hexadecimal MD5
  digest of \<open>input\<close>. The digest comes from Node's \<open>crypto\<close> module, outside the repository:
  it is the parameter \<open>md5\<close> of every operation.
\<close>

definition generateKey :: "(string \<Rightarrow> string) \<Rightarrow> string \<Rightarrow> string \<Rightarrow> string" where
  "generateKey md5 input type = type @ '':'' @ md5 input"

text \<open>The template literal \<open>`${message}:${sessionId}`\<close> of \<open>getResponse\<close> and \<open>setResponse\<close>.\<close>

definition response_input :: "string \<Rightarrow> string \<Rightarrow> string" where
  "response_input message sessionId = message @ '':'' @ sessionId"

subsection \<open>Lookups\<close>

text \<open>
  Each lookup returns the cached \<open>data\<close> on a hit and \<open>null\<close> (here \<open>None\<close>) otherwise,
  together with the service after the call; \<open>now\<close> is the value of \<open>Date.now()\<close>.
\<close>

definition getResponse ::
  "(string \<Rightarrow> string) \<Rightarrow> int \<Rightarrow> string \<Rightarrow> string \<Rightarrow> 'v cache_service
     \<Rightarrow> 'v option \<times> 'v cache_service" where
  "getResponse md5 now message sessionId s =
     (let key = generateKey md5 (response_input message sessionId) ''response'' in
      case map_get (responseCache s) key of
        Some cached \<Rightarrow>
          if expires cached > now
          then (Some (data cached), s\<lparr>console := console s @ [CacheHitResponse]\<rparr>)
          else (None, s)
      | None \<Rightarrow> (None, s))"

definition getLanguage ::
  "(string \<Rightarrow> string) \<Rightarrow> int \<Rightarrow> string \<Rightarrow> 'v cache_service
     \<Rightarrow> 'v option \<times> 'v cache_service" where
  "getLanguage md5 now audioHash s =
     (let key = generateKey md5 audioHash ''lang'' in
      case map_get (languageCache s) key of
        Some cached \<Rightarrow>
          if expires cached > now
          then (Some (data cached), s\<lparr>console := console s @ [CacheHitLanguage]\<rparr>)
          else (None, s)
      | None \<Rightarrow> (None, s))"

definition getTranscript ::
  "(string \<Rightarrow> string) \<Rightarrow> int \<Rightarrow> string \<Rightarrow> 'v cache_service
     \<Rightarrow> 'v option \<times> 'v cache_service" where
  "getTranscript md5 now audioHash s =
     (let key = generateKey md5 audioHash ''transcript'' in
      case map_get (transcriptCache s) key of
        Some cached \<Rightarrow>
          if expires cached > now
          then (Some (data cached), s\<lparr>console := console s @ [CacheHitTranscript]\<rparr>)
          else (None, s)
      | None \<Rightarrow> (None, s))"

subsection \<open>Stores\<close>

text \<open>
  The guard \<open>size >= maxSize\<close> deletes the first key of the map whatever the key being
  stored; \<open>delete(undefined)\<close> on an empty map removes nothing.
\<close>

definition setResponse ::
  "(string \<Rightarrow> string) \<Rightarrow> int \<Rightarrow> string \<Rightarrow> string \<Rightarrow> 'v \<Rightarrow> 'v cache_service
     \<Rightarrow> 'v cache_service" where
  "setResponse md5 now message sessionId response s =
     (let key = generateKey md5 (response_input message sessionId) ''response'';
          c1 = (if map_size (responseCache s) \<ge> responseMaxSize
                then (case first_key (responseCache s) of
                        None \<Rightarrow> responseCache s
                      | Some firstKey \<Rightarrow> map_delete firstKey (responseCache s))
                else responseCache s);
          c2 = map_set key \<lparr>data = response, expires = now + responseTTL\<rparr> c1
      in s\<lparr>responseCache := c2,
            console := console s @ [CachedResponse (map_size c2) responseMaxSize]\<rparr>)"

definition setLanguage ::
  "(string \<Rightarrow> string) \<Rightarrow> int \<Rightarrow> string \<Rightarrow> 'v \<Rightarrow> 'v cache_service \<Rightarrow> 'v cache_service" where
  "setLanguage md5 now audioHash language s =
     (let key = generateKey md5 audioHash ''lang'';
          c1 = (if map_size (languageCache s) \<ge> languageMaxSize
                then (case first_key (languageCache s) of
                        None \<Rightarrow> languageCache s
                      | Some firstKey \<Rightarrow> map_delete firstKey (languageCache s))
                else languageCache s)
      in s\<lparr>languageCache :=
              map_set key \<lparr>data = language, expires = now + languageTTL\<rparr> c1\<rparr>)"

definition setTranscript ::
  "(string \<Rightarrow> string) \<Rightarrow> int \<Rightarrow> string \<Rightarrow> 'v \<Rightarrow> 'v cache_service \<Rightarrow> 'v cache_service" where
  "setTranscript md5 now audioHash transcript s =
     (let key = generateKey md5 audioHash ''transcript'';
          c1 = (if map_size (transcriptCache s) \<ge> transcriptMaxSize
                then (case first_key (transcriptCache s) of
                        None \<Rightarrow> transcriptCache s
                      | Some firstKey \<Rightarrow> map_delete firstKey (transcriptCache s))
                else transcriptCache s)
      in s\<lparr>transcriptCache :=
              map_set key \<lparr>data = transcript, expires = now + transcriptTTL\<rparr> c1\<rparr>)"

subsection \<open>The three tiers, uniformly\<close>

text \<open>
  The three tiers differ in their map, their constants and the inputs of their key. To
  state a property once for all of them, a call is a value: a store names its tier's
  inputs and the value to cache, a lookup names the inputs.
\<close>

datatype tier = Response | Language | Transcript

datatype 'v set_call =
    SetResponse string string 'v
  | SetLanguage string 'v
  | SetTranscript string 'v

datatype get_call =
    GetResponse string string
  | GetLanguage string
  | GetTranscript string

fun capacity :: "tier \<Rightarrow> nat" where
  "capacity Response = responseMaxSize"
| "capacity Language = languageMaxSize"
| "capacity Transcript = transcriptMaxSize"

fun ttl :: "tier \<Rightarrow> int" where
  "ttl Response = responseTTL"
| "ttl Language = languageTTL"
| "ttl Transcript = transcriptTTL"

fun entries :: "tier \<Rightarrow> 'v cache_service \<Rightarrow> (string, 'v cache_entry) js_map" where
  "entries Response s = responseCache s"
| "entries Language s = languageCache s"
| "entries Transcript s = transcriptCache s"

fun set_tier :: "'v set_call \<Rightarrow> tier" where
  "set_tier (SetResponse m sid v) = Response"
| "set_tier (SetLanguage h v) = Language"
| "set_tier (SetTranscript h v) = Transcript"

fun set_key :: "(string \<Rightarrow> string) \<Rightarrow> 'v set_call \<Rightarrow> string" where
  "set_key md5 (SetResponse m sid v) = generateKey md5 (response_input m sid) ''response''"
| "set_key md5 (SetLanguage h v) = generateKey md5 h ''lang''"
| "set_key md5 (SetTranscript h v) = generateKey md5 h ''transcript''"

fun set_value :: "'v set_call \<Rightarrow> 'v" where
  "set_value (SetResponse m sid v) = v"
| "set_value (SetLanguage h v) = v"
| "set_value (SetTranscript h v) = v"

fun do_set :: "(string \<Rightarrow> string) \<Rightarrow> int \<Rightarrow> 'v set_call \<Rightarrow> 'v cache_service \<Rightarrow> 'v cache_service" where
  "do_set md5 now (SetResponse m sid v) s = setResponse md5 now m sid v s"
| "do_set md5 now (SetLanguage h v) s = setLanguage md5 now h v s"
| "do_set md5 now (SetTranscript h v) s = setTranscript md5 now h v s"

fun get_tier :: "get_call \<Rightarrow> tier" where
  "get_tier (GetResponse m sid) = Response"
| "get_tier (GetLanguage h) = Language"
| "get_tier (GetTranscript h) = Transcript"

fun get_key :: "(string \<Rightarrow> string) \<Rightarrow> get_call \<Rightarrow> string" where
  "get_key md5 (GetResponse m sid) = generateKey md5 (response_input m sid) ''response''"
| "get_key md5 (GetLanguage h) = generateKey md5 h ''lang''"
| "get_key md5 (GetTranscript h) = generateKey md5 h ''transcript''"

fun do_get :: "(string \<Rightarrow> string) \<Rightarrow> int \<Rightarrow> get_call \<Rightarrow> 'v cache_service
     \<Rightarrow> 'v option \<times> 'v cache_service" where
  "do_get md5 now (GetResponse m sid) s = getResponse md5 now m sid s"
| "do_get md5 now (GetLanguage h) s = getLanguage md5 now h s"
| "do_get md5 now (GetTranscript h) s = getTranscript md5 now h s"

text \<open>A sequence of stores, each at its own time, run from left to right.\<close>

fun run_sets :: "(string \<Rightarrow> string) \<Rightarrow> (int \<times> 'v set_call) list \<Rightarrow> 'v cache_service
     \<Rightarrow> 'v cache_service" where
  "run_sets md5 [] s = s"
| "run_sets md5 ((now, c) # cs) s = run_sets md5 cs (do_set md5 now c s)"

text \<open>
  What every store does to its own map: drop the first entry when the map is full, then
  \<open>set\<close>. Used to reason about the three stores at once.
\<close>

definition evict_then_set ::
  "nat \<Rightarrow> 'k \<Rightarrow> 'e \<Rightarrow> ('k, 'e) js_map \<Rightarrow> ('k, 'e) js_map" where
  "evict_then_set maxSize k e m =
     map_set k e (if map_size m \<ge> maxSize
                  then (case first_key m of None \<Rightarrow> m | Some fk \<Rightarrow> map_delete fk m)
                  else m)"

text \<open>The lookup with the inputs of a store: \<open>get(k)\<close> for the \<open>k\<close> of \<open>set(k, v)\<close>.\<close>

fun lookup_of :: "'v set_call \<Rightarrow> get_call" where
  "lookup_of (SetResponse m sid v) = GetResponse m sid"
| "lookup_of (SetLanguage h v) = GetLanguage h"
| "lookup_of (SetTranscript h v) = GetTranscript h"

text \<open>A run of \<open>evict_then_set\<close> over a list of keys and entries, and the entry a store writes.\<close>

definition puts :: "nat \<Rightarrow> ('k \<times> 'e) list \<Rightarrow> ('k, 'e) js_map \<Rightarrow> ('k, 'e) js_map" where
  "puts maxSize kes m = fold (\<lambda>(k, e). evict_then_set maxSize k e) kes m"

definition entry_of :: "tier \<Rightarrow> int \<times> 'v set_call \<Rightarrow> 'v cache_entry" where
  "entry_of t nc = \<lparr>data = set_value (snd nc), expires = fst nc + ttl t\<rparr>"

text \<open>
  Two concrete runs on the transcript tier (capacity 30), with the identity for the digest:
  thirty stores under distinct fingerprints, which fill the tier, and thirty-one, which
  overflow it by one.
\<close>

definition full_transcripts :: "nat cache_service" where
  "full_transcripts =
     run_sets id (map (\<lambda>n. (0, SetTranscript (replicate (Suc n) CHR ''a'') n)) [0..<30])
       new_cache_service"

definition overflowing_transcripts :: "(int \<times> nat set_call) list" where
  "overflowing_transcripts =
     map (\<lambda>n. (int n, SetTranscript (replicate (Suc n) CHR ''a'') n)) [0..<31]"

text \<open>The invariant of a tier: keys are unique (it is a map) and the size is bounded.\<close>

definition tier_ok :: "tier \<Rightarrow> 'v cache_service \<Rightarrow> bool" where
  "tier_ok t s = (distinct (map_keys (entries t s)) \<and> map_size (entries t s) \<le> capacity t)"

section \<open>The connection pool of the speech service (src/unnamed/part_005)\<close>

subsection \<open>The speech SDK\<close>

text \<open>
  \<open>microsoft-cognitiveservices-speech-sdk\<close> is outside the repository. A config object is
  a handle, the index of its flag in \<open>handles\<close>: \<open>True\<close> while open, \<open>False\<close> once
  \<open>close()\<close> was called on it. \<open>SpeechConfig.fromSubscription\<close> may throw; \<open>faults\<close>
  lists the outcomes of the constructor calls to come (\<open>True\<close>: the call throws), and a
  call past the end of the list succeeds. The properties set on a config
  (\<open>outputFormat\<close>, \<open>setProperty\<close>) are read by no operation of the pool and are left out.
\<close>

datatype js_error = SdkError

record sdk =
  handles :: "bool list"
  faults :: "bool list"

definition fromSubscription :: "sdk \<Rightarrow> (js_error + nat) \<times> sdk" where
  "fromSubscription w =
     (case faults w of
        [] \<Rightarrow> (Inr (length (handles w)), w\<lparr>handles := handles w @ [True]\<rparr>)
      | f # fs \<Rightarrow>
          if f then (Inl SdkError, w\<lparr>faults := fs\<rparr>)
          else (Inr (length (handles w)), w\<lparr>handles := handles w @ [True], faults := fs\<rparr>))"

definition close_config :: "nat \<Rightarrow> sdk \<Rightarrow> sdk" where
  "close_config h w = w\<lparr>handles := (handles w)[h := False]\<rparr>"

subsection \<open>Pool items and the service\<close>

text \<open>
  A pool item is a JavaScript object \<open>{config, inUse, temporary, created, lastUsed}\<close>;
  the items of \<open>initializeConfigPool\<close> have no \<open>temporary\<close> property, which reads as
  false. Items are shared by reference between \<open>configPool\<close> and the callers of
  \<open>getConfigFromPool\<close>, so they live in a heap (a reference is an index into it) and
  \<open>configPool\<close> is a list of references.
\<close>

record pool_item =
  config :: nat
  inUse :: bool
  temporary :: bool
  created :: int
  lastUsed :: int

record pool_stats =
  created_count :: nat
  reused :: nat
  destroyed :: nat

datatype pool_log = CreatingPool | AllInUseCreatingTemporary | RefreshedStaleConfig

record speech_service =
  heap :: "pool_item list"
  configPool :: "nat list"
  poolSize :: nat
  poolStats :: pool_stats
  sdk_state :: sdk
  pool_console :: "pool_log list"

text \<open>The constructor's pool fields, over a given SDK.\<close>

definition new_speech_service :: "sdk \<Rightarrow> speech_service" where
  "new_speech_service w =
     \<lparr>heap = [], configPool = [], poolSize = 5,
      poolStats = \<lparr>created_count = 0, reused = 0, destroyed = 0\<rparr>,
      sdk_state = w, pool_console = []\<rparr>"

subsection \<open>Operations\<close>

text \<open>
  An operation that can throw returns \<open>Inl\<close> of the error, and always the service as the
  exception leaves it. \<open>now\<close> is the value of \<open>Date.now()\<close> during the call.
\<close>

fun init_loop :: "int \<Rightarrow> nat \<Rightarrow> speech_service \<Rightarrow> (js_error + unit) \<times> speech_service" where
  "init_loop now 0 st = (Inr (), st)"
| "init_loop now (Suc n) st =
     (case fromSubscription (sdk_state st) of
        (Inl e, w) \<Rightarrow> (Inl e, st\<lparr>sdk_state := w\<rparr>)
      | (Inr c, w) \<Rightarrow>
          init_loop now n
            (st\<lparr>sdk_state := w,
                heap := heap st @
                  [\<lparr>config = c, inUse = False, temporary = False, created = now, lastUsed = now\<rparr>],
                configPool := configPool st @ [length (heap st)],
                poolStats := (poolStats st)\<lparr>created_count := created_count (poolStats st) + 1\<rparr>\<rparr>))"

definition initializeConfigPool :: "int \<Rightarrow> speech_service \<Rightarrow> (js_error + unit) \<times> speech_service" where
  "initializeConfigPool now st =
     init_loop now (poolSize st) (st\<lparr>pool_console := pool_console st @ [CreatingPool]\<rparr>)"

text \<open>\<open>this.configPool.find(item => !item.inUse)\<close>: the first item of the pool not in use.\<close>

definition find_available :: "speech_service \<Rightarrow> nat option" where
  "find_available st = List.find (\<lambda>a. \<not> inUse (heap st ! a)) (configPool st)"

definition getConfigFromPool :: "int \<Rightarrow> speech_service \<Rightarrow> (js_error + nat) \<times> speech_service" where
  "getConfigFromPool now st =
     (case find_available st of
        None \<Rightarrow>
          (let st1 = st\<lparr>pool_console := pool_console st @ [AllInUseCreatingTemporary]\<rparr> in
           case fromSubscription (sdk_state st1) of
             (Inl e, w) \<Rightarrow> (Inl e, st1\<lparr>sdk_state := w\<rparr>)
           | (Inr c, w) \<Rightarrow>
               (Inr (length (heap st1)),
                st1\<lparr>sdk_state := w,
                    heap := heap st1 @
                      [\<lparr>config = c, inUse = True, temporary = True, created = now, lastUsed = now\<rparr>],
                    poolStats := (poolStats st1)\<lparr>created_count := created_count (poolStats st1) + 1\<rparr>\<rparr>))
      | Some a \<Rightarrow>
          (Inr a,
           st\<lparr>heap := (heap st)[a := (heap st ! a)\<lparr>inUse := True, lastUsed := now\<rparr>],
              poolStats := (poolStats st)\<lparr>reused := reused (poolStats st) + 1\<rparr>\<rparr>))"

definition returnConfigToPool :: "int \<Rightarrow> nat \<Rightarrow> speech_service \<Rightarrow> speech_service" where
  "returnConfigToPool now poolItem st =
     (if temporary (heap st ! poolItem)
      then st\<lparr>sdk_state := close_config (config (heap st ! poolItem)) (sdk_state st),
              poolStats := (poolStats st)\<lparr>destroyed := destroyed (poolStats st) + 1\<rparr>\<rparr>
      else st\<lparr>heap := (heap st)[poolItem := (heap st ! poolItem)\<lparr>inUse := False, lastUsed := now\<rparr>]\<rparr>)"

definition maxAge :: int where "maxAge = 5 * 60 * 1000"

text \<open>The test of \<open>performPoolMaintenance\<close> on one item.\<close>

definition stale :: "int \<Rightarrow> pool_item \<Rightarrow> bool" where
  "stale now item = (\<not> inUse item \<and> now - lastUsed item > maxAge)"

text \<open>
  \<open>this.configPool.forEach(...)\<close> with no \<open>try\<close> around the body: an exception of the
  constructor leaves the loop, after \<open>close()\<close> on the item's old config.
\<close>

fun maintain :: "int \<Rightarrow> nat list \<Rightarrow> speech_service \<Rightarrow> (js_error + unit) \<times> speech_service" where
  "maintain now [] st = (Inr (), st)"
| "maintain now (a # as) st =
     (if stale now (heap st ! a)
      then (case fromSubscription (close_config (config (heap st ! a)) (sdk_state st)) of
              (Inl e, w) \<Rightarrow> (Inl e, st\<lparr>sdk_state := w\<rparr>)
            | (Inr c, w) \<Rightarrow>
                maintain now as
                  (st\<lparr>sdk_state := w,
                      heap := (heap st)[a := (heap st ! a)\<lparr>config := c, created := now, lastUsed := now\<rparr>],
                      pool_console := pool_console st @ [RefreshedStaleConfig]\<rparr>))
      else maintain now as st)"

definition performPoolMaintenance :: "int \<Rightarrow> speech_service \<Rightarrow> (js_error + unit) \<times> speech_service" where
  "performPoolMaintenance now st = maintain now (configPool st) st"

subsection \<open>Sequences of pool operations\<close>

datatype pool_op = Acquire | Release nat | Maintenance

fun do_op :: "int \<Rightarrow> pool_op \<Rightarrow> speech_service \<Rightarrow> speech_service" where
  "do_op now Acquire st = snd (getConfigFromPool now st)"
| "do_op now (Release poolItem) st = returnConfigToPool now poolItem st"
| "do_op now Maintenance st = snd (performPoolMaintenance now st)"

fun run_ops :: "(int \<times> pool_op) list \<Rightarrow> speech_service \<Rightarrow> speech_service" where
  "run_ops [] st = st"
| "run_ops ((now, op) # ops) st = run_ops ops (do_op now op st)"

text \<open>
  The shape of the service in every state the operations reach from an initialised pool:
  the pool lists distinct live items, exactly the items that are not temporary, and
  every item's config is a handle the SDK has issued.
\<close>

definition pool_wf :: "speech_service \<Rightarrow> bool" where
  "pool_wf st =
     (distinct (configPool st)
      \<and> (\<forall>a \<in> set (configPool st). a < length (heap st))
      \<and> (\<forall>a < length (heap st). temporary (heap st ! a) = (a \<notin> set (configPool st)))
      \<and> (\<forall>a < length (heap st). config (heap st ! a) < length (handles (sdk_state st))))"

text \<open>
  Concrete services: a pool initialised at time 10 over an SDK that never throws; the
  same pool after five acquisitions (every item in use), after a sixth (one temporary
  item, reference 5), and with item 1 released at time 26; and a pool initialised over
  an SDK whose sixth constructor call throws and every other succeeds.
\<close>

definition fresh_pool :: speech_service where
  "fresh_pool = snd (initializeConfigPool 10 (new_speech_service \<lparr>handles = [], faults = []\<rparr>))"

definition busy_pool :: speech_service where
  "busy_pool =
     run_ops [(20, Acquire), (21, Acquire), (22, Acquire), (23, Acquire), (24, Acquire)] fresh_pool"

definition overflowed_pool :: speech_service where
  "overflowed_pool = do_op 25 Acquire busy_pool"


definition faulty_pool :: speech_service where
  "faulty_pool =
     snd (initializeConfigPool 10
            (new_speech_service
               \<lparr>handles = [], faults = [False, False, False, False, False, True]\<rparr>))"

text \<open>
  Two more: the pool over the SDK whose sixth constructor call throws, after five
  acquisitions (every item in use, the throw still to come); and a pool initialised
  over an SDK whose seventh constructor call throws.
\<close>

definition exhausted_faulty_pool :: speech_service where
  "exhausted_faulty_pool =
     run_ops [(20, Acquire), (21, Acquire), (22, Acquire), (23, Acquire), (24, Acquire)] faulty_pool"

definition late_fault_pool :: speech_service where
  "late_fault_pool =
     snd (initializeConfigPool 10
            (new_speech_service
               \<lparr>handles = [], faults = [False, False, False, False, False, False, True]\<rparr>))"

section \<open>Properties of the cache service\<close>

subsection \<open>Ordered maps\<close>

lemma map_set_fresh:
  "k \<notin> set (map_keys m) \<Longrightarrow> map_set k v m = m @ [(k, v)]"
  unfolding map_set_def map_keys_def by (induction m) auto

lemma map_size_set:
  "map_size (map_set k v m) = (if k \<in> set (map_keys m) then map_size m else Suc (map_size m))"
  unfolding map_set_def map_keys_def map_size_def by (induction m) auto

lemma map_keys_set:
  "map_keys (map_set k v m) = (if k \<in> set (map_keys m) then map_keys m else map_keys m @ [k])"
  unfolding map_set_def map_keys_def by (induction m) auto

lemma map_get_set: "map_get (map_set k v m) k' = (if k' = k then Some v else map_get m k')"
  unfolding map_get_def map_set_def by (simp add: update_conv')

lemma evict_oldest:
  "distinct (map_keys m) \<Longrightarrow>
   (case first_key m of None \<Rightarrow> m | Some fk \<Rightarrow> map_delete fk m) = tl m"
  unfolding first_key_def map_delete_def map_keys_def
  by (cases m) (auto simp: image_iff)

lemma distinct_map_set: "distinct (map_keys m) \<Longrightarrow> distinct (map_keys (map_set k v m))"
  unfolding map_keys_def map_set_def by (rule distinct_update)

lemma distinct_map_delete: "distinct (map_keys m) \<Longrightarrow> distinct (map_keys (map_delete k m))"
  unfolding map_keys_def map_delete_def by (rule distinct_delete)

lemma evict_then_set_tl:
  "distinct (map_keys m) \<Longrightarrow>
   evict_then_set maxSize k e m = map_set k e (if map_size m \<ge> maxSize then tl m else m)"
  unfolding evict_then_set_def by (simp add: evict_oldest)

lemma distinct_tl_keys: "distinct (map_keys m) \<Longrightarrow> distinct (map_keys (tl m))"
  unfolding map_keys_def by (cases m) auto

lemma distinct_evict_then_set:
  "distinct (map_keys m) \<Longrightarrow> distinct (map_keys (evict_then_set maxSize k e m))"
  by (simp add: evict_then_set_tl distinct_map_set distinct_tl_keys)

lemma size_evict_then_set:
  assumes "distinct (map_keys m)" "map_size m \<le> maxSize" "0 < maxSize"
  shows "map_size (evict_then_set maxSize k e m) \<le> maxSize"
proof (cases "map_size m \<ge> maxSize")
  case True
  with assms have "m \<noteq> []" by (auto simp: map_size_def)
  then have "map_size (tl m) < maxSize"
    using assms(2) by (cases m) (auto simp: map_size_def)
  then show ?thesis
    using True assms(1) by (simp add: evict_then_set_tl map_size_set)
next
  case False
  then show ?thesis
    using assms(1) by (simp add: evict_then_set_tl map_size_set)
qed

subsection \<open>Every store is \<open>evict_then_set\<close> on its own map\<close>

lemma entries_do_set:
  "entries t (do_set md5 now c s) =
     (if set_tier c = t
      then evict_then_set (capacity t) (set_key md5 c)
             \<lparr>data = set_value c, expires = now + ttl t\<rparr> (entries t s)
      else entries t s)"
  by (cases c; cases t)
     (simp_all add: setResponse_def setLanguage_def setTranscript_def evict_then_set_def Let_def)

lemma capacity_pos: "0 < capacity t"
  by (cases t) (simp_all add: responseMaxSize_def languageMaxSize_def transcriptMaxSize_def)

lemma tier_ok_new: "tier_ok t new_cache_service"
  by (cases t) (simp_all add: tier_ok_def new_cache_service_def map_keys_def map_size_def)

lemma tier_ok_do_set: "tier_ok t s \<Longrightarrow> tier_ok t (do_set md5 now c s)"
  unfolding tier_ok_def
  by (simp add: entries_do_set distinct_evict_then_set size_evict_then_set capacity_pos)

lemma tier_ok_run_sets: "tier_ok t s \<Longrightarrow> tier_ok t (run_sets md5 cs s)"
  by (induction cs arbitrary: s) (auto simp: tier_ok_do_set)

text \<open>
  C1. Capacity invariant: whatever stores are run on a fresh service, in any order and at
  any times, each tier holds at most its configured number of entries (100 responses, 50
  languages, 30 transcripts). As the sequence is arbitrary, the bound holds after every
  call of it. The bound is kept by the store itself: in every state so reached, a store
  on a tier that is full first drops the oldest entry and then sets its key.
\<close>

theorem capacity_invariant:
  "map_size (entries t (run_sets md5 cs new_cache_service)) \<le> capacity t
   \<and> capacity Response = 100 \<and> capacity Language = 50 \<and> capacity Transcript = 30
   \<and> entries (set_tier c) (do_set md5 now c (run_sets md5 cs new_cache_service))
       = map_set (set_key md5 c) \<lparr>data = set_value c, expires = now + ttl (set_tier c)\<rparr>
           (if map_size (entries (set_tier c) (run_sets md5 cs new_cache_service))
                 \<ge> capacity (set_tier c)
            then tl (entries (set_tier c) (run_sets md5 cs new_cache_service))
            else entries (set_tier c) (run_sets md5 cs new_cache_service))"
proof -
  have "tier_ok t (run_sets md5 cs (new_cache_service :: 'a cache_service))"
    and ok: "tier_ok (set_tier c) (run_sets md5 cs (new_cache_service :: 'a cache_service))"
    by (rule tier_ok_run_sets [OF tier_ok_new])+
  then have 1: "map_size (entries t (run_sets md5 cs (new_cache_service :: 'a cache_service))) \<le> capacity t"
    by (simp add: tier_ok_def)
  have 2: "capacity Response = 100 \<and> capacity Language = 50 \<and> capacity Transcript = 30"
    by (simp add: responseMaxSize_def languageMaxSize_def transcriptMaxSize_def)
  have 3: "entries (set_tier c) (do_set md5 now c (run_sets md5 cs new_cache_service))
       = map_set (set_key md5 c) \<lparr>data = set_value c, expires = now + ttl (set_tier c)\<rparr>
           (if map_size (entries (set_tier c) (run_sets md5 cs new_cache_service))
                 \<ge> capacity (set_tier c)
            then tl (entries (set_tier c) (run_sets md5 cs new_cache_service))
            else entries (set_tier c) (run_sets md5 cs new_cache_service))"
    using ok by (simp add: entries_do_set evict_then_set_tl tier_ok_def)
  from 1 2 3 show ?thesis by blast
qed

subsection \<open>Lookups and runs of stores\<close>

lemma lookup_of_tier [simp]: "get_tier (lookup_of c) = set_tier c"
  by (cases c) simp_all

lemma lookup_of_key [simp]: "get_key md5 (lookup_of c) = set_key md5 c"
  by (cases c) simp_all

lemma fst_do_get:
  "fst (do_get md5 now g s) =
     (case map_get (entries (get_tier g) s) (get_key md5 g) of
        None \<Rightarrow> None
      | Some e \<Rightarrow> if expires e > now then Some (data e) else None)"
  by (cases g)
     (simp_all add: getResponse_def getLanguage_def getTranscript_def Let_def split: option.splits)

lemma do_get_miss: "fst (do_get md5 now g s) = None \<Longrightarrow> snd (do_get md5 now g s) = s"
  by (cases g)
     (auto simp: getResponse_def getLanguage_def getTranscript_def Let_def
           split: option.splits if_splits)

lemma entries_do_get: "entries t (snd (do_get md5 now g s)) = entries t s"
  by (cases g; cases t)
     (auto simp: getResponse_def getLanguage_def getTranscript_def Let_def
           split: option.splits if_splits)

lemma map_get_evict_then_set_same:
  "map_get (evict_then_set maxSize k e m) k = Some e"
  by (simp add: evict_then_set_def map_get_set)

lemma evict_then_set_fresh:
  assumes "distinct (map_keys m)" "k \<notin> set (map_keys m)"
  shows "evict_then_set maxSize k e m = (if map_size m \<ge> maxSize then tl m else m) @ [(k, e)]"
proof -
  have "k \<notin> set (map_keys (tl m))"
    using assms(2) unfolding map_keys_def by (cases m) auto
  with assms show ?thesis
    by (simp add: evict_then_set_tl map_set_fresh)
qed

lemma puts_fresh:
  assumes "distinct (map_keys m @ map fst kes)" "map_size m \<le> maxSize" "0 < maxSize"
  shows "puts maxSize kes m = drop (map_size m + length kes - maxSize) (m @ kes)"
  using assms
proof (induction kes arbitrary: m)
  case Nil
  then show ?case by (simp add: puts_def map_size_def)
next
  case (Cons ke kes)
  obtain k e where ke: "ke = (k, e)" by (cases ke)
  have dm: "distinct (map_keys m)" and km: "k \<notin> set (map_keys m)"
    using Cons.prems(1) ke by auto
  let ?m' = "(if map_size m \<ge> maxSize then tl m else m) @ [(k, e)]"
  have step: "evict_then_set maxSize k e m = ?m'"
    using dm km by (rule evict_then_set_fresh)
  have keys': "set (map_keys ?m') \<subseteq> set (map_keys m) \<union> {k}"
    unfolding map_keys_def by (cases m) auto
  have d': "distinct (map_keys ?m' @ map fst kes)"
    using Cons.prems(1) ke unfolding map_keys_def by (cases m) auto
  have sz': "map_size ?m' \<le> maxSize"
    using Cons.prems(2,3) unfolding map_size_def by (cases m) auto
  have "puts maxSize (ke # kes) m = puts maxSize kes ?m'"
    by (simp add: puts_def ke step)
  also have "\<dots> = drop (map_size ?m' + length kes - maxSize) (?m' @ kes)"
    using Cons.IH [OF d' sz' Cons.prems(3)] .
  also have "\<dots> = drop (map_size m + length (ke # kes) - maxSize) (m @ ke # kes)"
  proof (cases "map_size m \<ge> maxSize")
    case True
    with Cons.prems(2) have eq: "map_size m = maxSize" by simp
    with Cons.prems(3) obtain x xs where m: "m = x # xs"
      by (cases m) (auto simp: map_size_def)
    show ?thesis using eq by (simp add: m ke map_size_def)
  next
    case False
    then show ?thesis by (simp add: ke map_size_def)
  qed
  finally show ?case .
qed

lemma entries_run_sets:
  "\<forall>nc \<in> set cs. set_tier (snd nc) = t \<Longrightarrow>
   entries t (run_sets md5 cs s) =
     puts (capacity t) (map (\<lambda>nc. (set_key md5 (snd nc), entry_of t nc)) cs) (entries t s)"
proof (induction cs arbitrary: s)
  case Nil
  then show ?case by (simp add: puts_def)
next
  case (Cons nc cs)
  obtain now c where nc: "nc = (now, c)" by (cases nc)
  from Cons.prems have t: "set_tier c = t" and rest: "\<forall>nc \<in> set cs. set_tier (snd nc) = t"
    by (auto simp: nc)
  show ?case
    using Cons.IH [OF rest, of "do_set md5 now c s"] t
    by (simp add: nc entries_do_set puts_def entry_of_def)
qed

lemma map_get_last:
  assumes "distinct (map fst kes)" "kes \<noteq> []"
  shows "map_get kes (fst (last kes)) = Some (snd (last kes))"
proof -
  have "last kes \<in> set kes" using assms(2) by simp
  then have "(fst (last kes), snd (last kes)) \<in> set kes" by simp
  with assms(1) show ?thesis unfolding map_get_def by (rule map_of_is_SomeI)
qed

lemma map_get_absent: "k \<notin> set (map_keys m) \<Longrightarrow> map_get m k = None"
  unfolding map_get_def map_keys_def by (simp add: map_of_eq_None_iff)

lemma map_keys_tl: "map_keys (tl m) = tl (map_keys m)"
  unfolding map_keys_def by (simp add: map_tl)

text \<open>
  C2 (as the spec states it). Overwriting a present key is claimed to leave the size
  unchanged and to evict nothing. The transcript tier, filled by thirty stores, holds
  the fingerprints \<open>a\<close> (the oldest) and \<open>aa\<close>; storing \<open>aa\<close> again drops the size to 29
  and the entry of \<open>a\<close> is gone, although \<open>aa\<close> was present: the guard of the store tests
  only the size.
\<close>

theorem overwrite_at_capacity_counterexample:
  "map_size (entries Transcript full_transcripts) = 30
   \<and> fst (do_get id 1 (GetTranscript ''aa'') full_transcripts) = Some 1
   \<and> fst (do_get id 1 (GetTranscript ''a'') full_transcripts) = Some 0
   \<and> map_size (entries Transcript (do_set id 1 (SetTranscript ''aa'' 99) full_transcripts)) = 29
   \<and> fst (do_get id 1 (GetTranscript ''a'') (do_set id 1 (SetTranscript ''aa'' 99) full_transcripts)) = None"
  unfolding full_transcripts_def by code_simp

text \<open>
  C2 (amended). For a key already present in a tier, a store makes the next lookup of
  the key return the new value until the new expiry. Below capacity the entry is
  overwritten in place: the keys, their order and the size are unchanged. At capacity
  the store first evicts the oldest-inserted entry although the key is present: when
  the key is not the oldest one the size drops by one, and when it is the oldest one it
  is re-inserted as the newest entry and the size is unchanged.
\<close>

theorem overwrite_present:
  assumes ok: "tier_ok (set_tier c) s"
    and present: "set_key md5 c \<in> set (map_keys (entries (set_tier c) s))"
  shows "fst (do_get md5 now' (lookup_of c) (do_set md5 now c s))
           = (if now' < now + ttl (set_tier c) then Some (set_value c) else None)
       \<and> (if map_size (entries (set_tier c) s) < capacity (set_tier c)
          then map_keys (entries (set_tier c) (do_set md5 now c s)) = map_keys (entries (set_tier c) s)
             \<and> map_size (entries (set_tier c) (do_set md5 now c s)) = map_size (entries (set_tier c) s)
          else if first_key (entries (set_tier c) s) = Some (set_key md5 c)
          then map_keys (entries (set_tier c) (do_set md5 now c s))
                 = tl (map_keys (entries (set_tier c) s)) @ [set_key md5 c]
             \<and> map_size (entries (set_tier c) (do_set md5 now c s)) = map_size (entries (set_tier c) s)
          else map_keys (entries (set_tier c) (do_set md5 now c s))
                 = tl (map_keys (entries (set_tier c) s))
             \<and> map_size (entries (set_tier c) (do_set md5 now c s)) + 1
                 = map_size (entries (set_tier c) s))"
proof -
  let ?t = "set_tier c" and ?k = "set_key md5 c"
  let ?m = "entries ?t s"
  let ?e = "\<lparr>data = set_value c, expires = now + ttl ?t\<rparr>"
  have d: "distinct (map_keys ?m)" using ok by (simp add: tier_ok_def)
  have m': "entries ?t (do_set md5 now c s)
              = map_set ?k ?e (if map_size ?m \<ge> capacity ?t then tl ?m else ?m)"
    using d by (simp add: entries_do_set evict_then_set_tl)
  have 1: "fst (do_get md5 now' (lookup_of c) (do_set md5 now c s))
           = (if now' < now + ttl ?t then Some (set_value c) else None)"
    by (simp add: fst_do_get m' map_get_set)
  obtain x xs where m: "?m = x # xs"
    using present by (cases ?m) (auto simp: map_keys_def)
  have 2: ?thesis if "map_size ?m < capacity ?t"
    using that present 1 by (simp add: m' map_keys_set map_size_set)
  have 3: ?thesis if full: "\<not> map_size ?m < capacity ?t" and fk: "first_key ?m = Some ?k"
  proof -
    have "fst x = ?k" using fk by (simp add: m first_key_def split: prod.splits)
    then have "?k \<notin> set (map_keys (tl ?m))"
      using d by (auto simp: m map_keys_def)
    then show ?thesis
      using full fk 1 by (simp add: m' map_keys_set map_size_set map_keys_tl) (simp add: m map_size_def)
  qed
  have 4: ?thesis if full: "\<not> map_size ?m < capacity ?t" and fk: "first_key ?m \<noteq> Some ?k"
  proof -
    have "fst x \<noteq> ?k" using fk by (simp add: m first_key_def split: prod.splits)
    then have "?k \<in> set (map_keys (tl ?m))"
      using present by (auto simp: m map_keys_def)
    then show ?thesis
      using full fk 1 by (simp add: m' map_keys_set map_size_set map_keys_tl) (simp add: m map_size_def)
  qed
  from 2 3 4 show ?thesis by blast
qed

text \<open>C2, witness: a second store under the fingerprint \<open>a\<close> on a tier that holds only it.\<close>

theorem overwrite_present_witness:
  "tier_ok Transcript (do_set id 0 (SetTranscript ''a'' (5::nat)) new_cache_service)
   \<and> fst (do_get id 9 (GetTranscript ''a'')
          (do_set id 1 (SetTranscript ''a'' 7)
             (do_set id 0 (SetTranscript ''a'' (5::nat)) new_cache_service))) = Some 7
   \<and> map_size (entries Transcript
          (do_set id 1 (SetTranscript ''a'' 7)
             (do_set id 0 (SetTranscript ''a'' (5::nat)) new_cache_service)))
       = map_size (entries Transcript
          (do_set id 0 (SetTranscript ''a'' (5::nat)) new_cache_service))"
proof -
  let ?s = "do_set id 0 (SetTranscript ''a'' (5::nat)) new_cache_service"
  have h1: "tier_ok (set_tier (SetTranscript ''a'' (7::nat))) ?s"
    using tier_ok_do_set [OF tier_ok_new, of Transcript id 0 "SetTranscript ''a'' (5::nat)"]
    by simp
  have es: "transcriptCache (setTranscript id 0 ''a'' (5::nat) new_cache_service)
              = [(''transcript:a'', \<lparr>data = 5, expires = 60000\<rparr>)]"
    by (simp add: setTranscript_def new_cache_service_def generateKey_def map_size_def
          map_set_def transcriptMaxSize_def transcriptTTL_def)
  have h2: "set_key id (SetTranscript ''a'' (7::nat))
              \<in> set (map_keys (entries (set_tier (SetTranscript ''a'' (7::nat))) ?s))"
    by (simp add: es map_keys_def generateKey_def)
  show ?thesis
    using overwrite_present [OF h1 h2, of 9 1] h1
    by (simp add: es map_size_def transcriptMaxSize_def transcriptTTL_def)
qed

text \<open>
  C3. The response key is a function of the text \<open>message:sessionId\<close>, so identical
  pairs give identical keys; but two distinct pairs with the same concatenated spelling
  give the same key whatever the digest, and a response cached for message
  \<open>hello:s1\<close> in session \<open>x\<close> is returned for message \<open>hello\<close> in session \<open>s1:x\<close>.
\<close>

theorem response_key_collision:
  "generateKey md5 (response_input ''hello:s1'' ''x'') ''response''
     = generateKey md5 (response_input ''hello'' ''s1:x'') ''response''
   \<and> (''hello:s1'', ''x'') \<noteq> (''hello'', ''s1:x'')
   \<and> fst (getResponse md5 1 ''hello'' ''s1:x''
          (setResponse md5 0 ''hello:s1'' ''x'' v new_cache_service)) = Some v"
  by (simp add: generateKey_def response_input_def getResponse_def setResponse_def
        new_cache_service_def map_get_set map_size_def responseMaxSize_def responseTTL_def
        Let_def)

text \<open>
  C6. Eviction order: on a tier within its capacity \<open>C\<close>, \<open>C + 1\<close> stores under distinct
  keys that the tier does not hold leave exactly the keys of the last \<open>C\<close> stores, in
  order: the lookup of the first key misses, and the lookup of the last key returns its
  value until that entry expires. Every eviction removed the oldest entry and no other.
\<close>

theorem eviction_order:
  assumes ok: "tier_ok t s"
    and tier: "\<forall>nc \<in> set cs. set_tier (snd nc) = t"
    and len: "length cs = capacity t + 1"
    and dist: "distinct (map (\<lambda>nc. set_key md5 (snd nc)) cs)"
    and new: "\<forall>nc \<in> set cs. set_key md5 (snd nc) \<notin> set (map_keys (entries t s))"
  shows "fst (do_get md5 now (lookup_of (snd (hd cs))) (run_sets md5 cs s)) = None
       \<and> (if now < fst (last cs) + ttl t
          then fst (do_get md5 now (lookup_of (snd (last cs))) (run_sets md5 cs s))
                 = Some (set_value (snd (last cs)))
          else fst (do_get md5 now (lookup_of (snd (last cs))) (run_sets md5 cs s)) = None)
       \<and> map_keys (entries t (run_sets md5 cs s)) = map (\<lambda>nc. set_key md5 (snd nc)) (tl cs)"
proof -
  let ?kes = "map (\<lambda>nc. (set_key md5 (snd nc), entry_of t nc)) cs"
  let ?m = "entries t s"
  have keys: "map fst ?kes = map (\<lambda>nc. set_key md5 (snd nc)) cs"
    by (simp add: comp_def)
  have d: "distinct (map_keys ?m @ map fst ?kes)"
    using ok dist new unfolding keys tier_ok_def by auto
  have sz: "map_size ?m \<le> capacity t"
    using ok by (simp add: tier_ok_def)
  have "entries t (run_sets md5 cs s) = puts (capacity t) ?kes ?m"
    using tier by (rule entries_run_sets)
  also have "\<dots> = drop (map_size ?m + length ?kes - capacity t) (?m @ ?kes)"
    using d sz capacity_pos by (rule puts_fresh)
  also have "\<dots> = tl ?kes"
    using len by (simp add: map_size_def drop_Suc)
  finally have res: "entries t (run_sets md5 cs s) = tl ?kes" .
  obtain c0 cs' where cs: "cs = c0 # cs'"
    using len by (cases cs) auto
  have cs'_ne: "cs' \<noteq> []"
    using len capacity_pos [of t] by (auto simp: cs)
  have res': "entries t (run_sets md5 cs s) = map (\<lambda>nc. (set_key md5 (snd nc), entry_of t nc)) cs'"
    using res by (simp add: cs)
  have keys': "map_keys (entries t (run_sets md5 cs s)) = map (\<lambda>nc. set_key md5 (snd nc)) cs'"
    unfolding res' map_keys_def by (simp add: comp_def)
  have first: "set_key md5 (snd c0) \<notin> set (map_keys (entries t (run_sets md5 cs s)))"
    unfolding keys' using dist by (simp add: cs)
  have t0: "set_tier (snd c0) = t" and tl: "set_tier (snd (last cs)) = t"
    using tier cs'_ne by (auto simp: cs)
  have lastcs: "last cs = last cs'"
    using cs'_ne by (simp add: cs)
  have "map_get (map (\<lambda>nc. (set_key md5 (snd nc), entry_of t nc)) cs')
          (fst (last (map (\<lambda>nc. (set_key md5 (snd nc), entry_of t nc)) cs')))
        = Some (snd (last (map (\<lambda>nc. (set_key md5 (snd nc), entry_of t nc)) cs')))"
    using dist cs'_ne by (intro map_get_last) (simp_all add: cs comp_def)
  then have lastget:
    "map_get (entries t (run_sets md5 cs s)) (set_key md5 (snd (last cs)))
       = Some (entry_of t (last cs))"
    using cs'_ne by (simp add: res' lastcs last_map)
  have 1: "fst (do_get md5 now (lookup_of (snd (hd cs))) (run_sets md5 cs s)) = None"
    using first t0 by (simp add: fst_do_get cs map_get_absent)
  have 2: "fst (do_get md5 now (lookup_of (snd (last cs))) (run_sets md5 cs s))
             = (if now < fst (last cs) + ttl t then Some (set_value (snd (last cs))) else None)"
    using lastget tl by (simp add: fst_do_get entry_of_def)
  have 3: "map_keys (entries t (run_sets md5 cs s)) = map (\<lambda>nc. set_key md5 (snd nc)) (tl cs)"
    using keys' by (simp add: cs)
  from 1 2 3 show ?thesis by simp
qed

text \<open>C6, witness: thirty-one transcripts stored into a fresh service.\<close>

theorem eviction_order_witness:
  "fst (do_get id 31 (GetTranscript ''a'')
          (run_sets id overflowing_transcripts new_cache_service)) = None
   \<and> fst (do_get id 31 (GetTranscript (replicate 31 CHR ''a''))
          (run_sets id overflowing_transcripts new_cache_service)) = Some 30
   \<and> map_size (entries Transcript (run_sets id overflowing_transcripts new_cache_service)) = 30"
proof -
  let ?cs = "overflowing_transcripts"
  have h1: "tier_ok Transcript (new_cache_service :: nat cache_service)"
    by (rule tier_ok_new)
  have h2: "\<forall>nc \<in> set ?cs. set_tier (snd nc) = Transcript"
    by (simp add: overflowing_transcripts_def)
  have h3: "length ?cs = capacity Transcript + 1"
    by (simp add: overflowing_transcripts_def transcriptMaxSize_def)
  have h4: "distinct (map (\<lambda>nc. set_key id (snd nc)) ?cs)"
    by (simp add: overflowing_transcripts_def comp_def generateKey_def distinct_map inj_on_def)
  have h5: "\<forall>nc \<in> set ?cs. set_key id (snd nc)
              \<notin> set (map_keys (entries Transcript (new_cache_service :: nat cache_service)))"
    by (simp add: new_cache_service_def map_keys_def)
  have hd: "hd ?cs = (0, SetTranscript ''a'' 0)"
    unfolding overflowing_transcripts_def by code_simp
  have last: "last ?cs = (30, SetTranscript (replicate 31 CHR ''a'') 30)"
    unfolding overflowing_transcripts_def by code_simp
  have "map_size (entries Transcript (run_sets id ?cs new_cache_service)) =
        length (map_keys (entries Transcript (run_sets id ?cs new_cache_service)))"
    by (simp add: map_size_def map_keys_def)
  then show ?thesis
    using eviction_order [OF h1 h2 h3 h4 h5, of 31] h3
    by (simp add: hd last transcriptTTL_def transcriptMaxSize_def length_tl)
qed

text \<open>
  C7. TTL: after a store at time \<open>t\<close>, the lookup of the same inputs misses at
  \<open>t + ttl + eps\<close> and returns the value at \<open>t + ttl - eps\<close>, for every \<open>eps > 0\<close>. In any
  state, a lookup whose entry is present but expired returns \<open>null\<close> and leaves the
  service as it was, as does a lookup of an absent key: a miss has no side effect.
\<close>

theorem ttl_correctness:
  assumes "0 < eps"
  shows "fst (do_get md5 (t + ttl (set_tier c) + eps) (lookup_of c) (do_set md5 t c s)) = None
       \<and> fst (do_get md5 (t + ttl (set_tier c) - eps) (lookup_of c) (do_set md5 t c s))
           = Some (set_value c)
       \<and> (case map_get (entries (get_tier g) s') (get_key md5 g) of
            Some e \<Rightarrow> if expires e \<le> now then do_get md5 now g s' = (None, s')
                      else fst (do_get md5 now g s') = Some (data e)
          | None \<Rightarrow> do_get md5 now g s' = (None, s'))"
proof -
  have "map_get (entries (set_tier c) (do_set md5 t c s)) (set_key md5 c)
          = Some \<lparr>data = set_value c, expires = t + ttl (set_tier c)\<rparr>"
    by (simp add: entries_do_set map_get_evict_then_set_same)
  then have 1: "fst (do_get md5 (t + ttl (set_tier c) + eps) (lookup_of c) (do_set md5 t c s)) = None"
    and 2: "fst (do_get md5 (t + ttl (set_tier c) - eps) (lookup_of c) (do_set md5 t c s))
           = Some (set_value c)"
    using assms by (simp_all add: fst_do_get)
  have 3: "(case map_get (entries (get_tier g) s') (get_key md5 g) of
            Some e \<Rightarrow> if expires e \<le> now then do_get md5 now g s' = (None, s')
                      else fst (do_get md5 now g s') = Some (data e)
          | None \<Rightarrow> do_get md5 now g s' = (None, s'))"
    using do_get_miss [of md5 now g s']
    by (auto simp: fst_do_get prod_eq_iff split: option.splits)
  from 1 2 3 show ?thesis by blast
qed

text \<open>C7, witness: a response stored at time 1000, looked up one millisecond around its expiry.\<close>

theorem ttl_correctness_witness:
  "(0::int) < 1
   \<and> fst (do_get id (1000 + ttl Response + 1) (GetResponse ''hello'' ''sess1'')
          (do_set id 1000 (SetResponse ''hello'' ''sess1'' (7::nat)) new_cache_service)) = None
   \<and> fst (do_get id (1000 + ttl Response - 1) (GetResponse ''hello'' ''sess1'')
          (do_set id 1000 (SetResponse ''hello'' ''sess1'' (7::nat)) new_cache_service)) = Some 7"
proof -
  have h: "(0::int) < 1" by simp
  show ?thesis
    using ttl_correctness [OF h, of id 1000 "SetResponse ''hello'' ''sess1'' (7::nat)"
        new_cache_service 0 "GetResponse ''hello'' ''sess1''"
        "new_cache_service :: nat cache_service"]
    by simp
qed

section \<open>Properties of the connection pool\<close>

subsection \<open>The SDK\<close>

lemma nth_list_update_any:
  "xs[a := x] ! b = (if a = b \<and> a < length xs then x else xs ! b)"
  by (cases "a < length xs") (auto simp: nth_list_update list_update_beyond)

lemma fromSubscription_cases:
  "fromSubscription w = (r, w') \<Longrightarrow>
     (r = Inr (length (handles w)) \<and> handles w' = handles w @ [True])
     \<or> (r = Inl SdkError \<and> handles w' = handles w)"
  by (auto simp: fromSubscription_def split: list.splits if_splits)

lemma fromSubscription_Inr:
  "fromSubscription w = (Inr c, w') \<Longrightarrow> c = length (handles w) \<and> handles w' = handles w @ [True]"
  by (drule fromSubscription_cases) auto

lemma fromSubscription_Inl:
  "fromSubscription w = (Inl e, w') \<Longrightarrow> handles w' = handles w"
  by (drule fromSubscription_cases) auto

lemma handles_close_config [simp]: "length (handles (close_config h w)) = length (handles w)"
  by (simp add: close_config_def)

subsection \<open>Finding a free item\<close>

lemma find_available_None:
  "find_available st = None \<longleftrightarrow> (\<forall>a \<in> set (configPool st). inUse (heap st ! a))"
  by (auto simp: find_available_def find_None_iff)

lemma find_available_Some:
  "find_available st = Some a \<Longrightarrow> a \<in> set (configPool st) \<and> \<not> inUse (heap st ! a)"
  by (auto simp: find_available_def find_Some_iff)

lemma free_slot_iff:
  assumes "pool_wf st"
  shows "(\<exists>b < length (heap st). \<not> temporary (heap st ! b) \<and> \<not> inUse (heap st ! b))
           \<longleftrightarrow> find_available st \<noteq> None"
  using assms unfolding find_available_None pool_wf_def by blast

subsection \<open>The operations keep the shape of the service\<close>

lemma getConfigFromPool_configPool: "configPool (snd (getConfigFromPool now st)) = configPool st"
  by (simp add: getConfigFromPool_def Let_def split: option.splits prod.splits sum.splits)

lemma returnConfigToPool_configPool: "configPool (returnConfigToPool now a st) = configPool st"
  by (simp add: returnConfigToPool_def)

lemma maintain_configPool: "configPool (snd (maintain now as st)) = configPool st"
  by (induction as arbitrary: st) (auto split: prod.splits sum.splits)

lemma getConfigFromPool_wf:
  assumes "pool_wf st"
  shows "pool_wf (snd (getConfigFromPool now st))"
proof (cases "find_available st")
  case (Some a)
  then show ?thesis
    using assms
    by (auto simp: getConfigFromPool_def pool_wf_def nth_list_update_any)
next
  case None
  obtain r w where fs: "fromSubscription (sdk_state st) = (r, w)"
    by (cases "fromSubscription (sdk_state st)")
  from fromSubscription_cases [OF fs] show ?thesis
  proof
    assume "r = Inr (length (handles (sdk_state st))) \<and> handles w = handles (sdk_state st) @ [True]"
    then show ?thesis
      using assms None fs
      by (auto simp: getConfigFromPool_def pool_wf_def nth_append less_Suc_eq)
  next
    assume "r = Inl SdkError \<and> handles w = handles (sdk_state st)"
    then show ?thesis
      using assms None fs
      by (auto simp: getConfigFromPool_def pool_wf_def)
  qed
qed

lemma returnConfigToPool_wf:
  assumes "pool_wf st"
  shows "pool_wf (returnConfigToPool now a st)"
  using assms
  by (auto simp: returnConfigToPool_def pool_wf_def nth_list_update_any)

lemma maintain_wf:
  "pool_wf st \<Longrightarrow> pool_wf (snd (maintain now as st))"
proof (induction as arbitrary: st)
  case Nil
  then show ?case by simp
next
  case (Cons a as)
  show ?case
  proof (cases "stale now (heap st ! a)")
    case False
    then show ?thesis using Cons by simp
  next
    case True
    let ?w0 = "close_config (config (heap st ! a)) (sdk_state st)"
    obtain r w where fs: "fromSubscription ?w0 = (r, w)"
      by (cases "fromSubscription ?w0")
    from fromSubscription_cases [OF fs] show ?thesis
    proof
      assume ok: "r = Inr (length (handles ?w0)) \<and> handles w = handles ?w0 @ [True]"
      let ?st1 = "st\<lparr>sdk_state := w,
                      heap := (heap st)[a := (heap st ! a)\<lparr>config := length (handles ?w0),
                                created := now, lastUsed := now\<rparr>],
                      pool_console := pool_console st @ [RefreshedStaleConfig]\<rparr>"
      have "pool_wf ?st1"
        using Cons.prems ok
        by (auto simp: pool_wf_def nth_list_update_any less_Suc_eq)
      from Cons.IH [OF this] show ?thesis
        using True fs ok by simp
    next
      assume "r = Inl SdkError \<and> handles w = handles ?w0"
      then show ?thesis
        using Cons.prems True fs by (auto simp: pool_wf_def)
    qed
  qed
qed

lemma do_op_wf: "pool_wf st \<Longrightarrow> pool_wf (do_op now op st)"
  by (cases op)
     (simp_all add: getConfigFromPool_wf returnConfigToPool_wf maintain_wf performPoolMaintenance_def)

lemma do_op_configPool: "configPool (do_op now op st) = configPool st"
  by (cases op)
     (simp_all add: getConfigFromPool_configPool returnConfigToPool_configPool
        maintain_configPool performPoolMaintenance_def)

lemma run_ops_wf: "pool_wf st \<Longrightarrow> pool_wf (run_ops ops st)"
  by (induction ops arbitrary: st) (auto simp: do_op_wf)

lemma run_ops_configPool: "configPool (run_ops ops st) = configPool st"
  by (induction ops arbitrary: st) (auto simp: do_op_configPool)

lemma getConfigFromPool_heap_length: "length (heap st) \<le> length (heap (snd (getConfigFromPool now st)))"
  by (simp add: getConfigFromPool_def Let_def split: option.splits prod.splits sum.splits)

lemma returnConfigToPool_heap_length: "length (heap (returnConfigToPool now a st)) = length (heap st)"
  by (simp add: returnConfigToPool_def)

lemma maintain_heap_length: "length (heap (snd (maintain now as st))) = length (heap st)"
  by (induction as arbitrary: st) (auto split: prod.splits sum.splits)

lemma do_op_heap_length: "length (heap st) \<le> length (heap (do_op now op st))"
  by (cases op)
     (simp_all add: getConfigFromPool_heap_length returnConfigToPool_heap_length
        maintain_heap_length performPoolMaintenance_def)

lemma run_ops_heap_length: "length (heap st) \<le> length (heap (run_ops ops st))"
proof (induction ops arbitrary: st)
  case Nil
  then show ?case by simp
next
  case (Cons x ops)
  obtain now op where x: "x = (now, op)" by (cases x)
  have "length (heap st) \<le> length (heap (do_op now op st))" by (rule do_op_heap_length)
  also have "\<dots> \<le> length (heap (run_ops ops (do_op now op st)))" by (rule Cons.IH)
  finally show ?case by (simp add: x)
qed

lemma getConfigFromPool_result:
  "getConfigFromPool now st = (Inr a, st') \<Longrightarrow> a \<in> set (configPool st) \<or> a = length (heap st)"
  by (auto simp: getConfigFromPool_def Let_def dest: find_available_Some
           split: option.splits prod.splits sum.splits)

subsection \<open>Initialisation\<close>

lemma init_loop_wf:
  "init_loop now n st = (Inr (), st') \<Longrightarrow> pool_wf st \<Longrightarrow>
     pool_wf st' \<and> length (configPool st') = length (configPool st) + n
     \<and> poolSize st' = poolSize st"
proof (induction n arbitrary: st)
  case 0
  then show ?case by simp
next
  case (Suc n)
  obtain r w where fs: "fromSubscription (sdk_state st) = (r, w)"
    by (cases "fromSubscription (sdk_state st)")
  from fromSubscription_cases [OF fs] show ?case
  proof
    assume ok: "r = Inr (length (handles (sdk_state st))) \<and> handles w = handles (sdk_state st) @ [True]"
    let ?st1 = "st\<lparr>sdk_state := w,
                heap := heap st @
                  [\<lparr>config = length (handles (sdk_state st)), inUse = False, temporary = False,
                    created = now, lastUsed = now\<rparr>],
                configPool := configPool st @ [length (heap st)],
                poolStats := (poolStats st)\<lparr>created_count := created_count (poolStats st) + 1\<rparr>\<rparr>"
    have run: "init_loop now n ?st1 = (Inr (), st')"
      using Suc.prems(1) fs ok by simp
    have "pool_wf ?st1"
      using Suc.prems(2) ok
      by (auto simp: pool_wf_def nth_append less_Suc_eq)
    from Suc.IH [OF run this] show ?thesis by simp
  next
    assume "r = Inl SdkError \<and> handles w = handles (sdk_state st)"
    then show ?thesis using Suc.prems(1) fs by simp
  qed
qed

lemma pool_wf_new: "pool_wf (new_speech_service w)"
  by (simp add: pool_wf_def new_speech_service_def)


subsection \<open>The maintenance sweep\<close>

lemma stale_refreshed [simp]:
  "\<not> stale now (item\<lparr>config := c, created := now, lastUsed := now\<rparr>)"
  by (simp add: stale_def maxAge_def)

lemma maintain_frame:
  "a \<notin> set as \<or> \<not> stale now (heap st ! a) \<Longrightarrow>
   heap (snd (maintain now as st)) ! a = heap st ! a"
proof (induction as arbitrary: st)
  case Nil
  then show ?case by simp
next
  case (Cons a1 as)
  show ?case
  proof (cases "stale now (heap st ! a1)")
    case False
    then show ?thesis using Cons by auto
  next
    case True
    with Cons.prems have ne: "a \<noteq> a1" by auto
    let ?w0 = "close_config (config (heap st ! a1)) (sdk_state st)"
    obtain r w where fs: "fromSubscription ?w0 = (r, w)"
      by (cases "fromSubscription ?w0")
    show ?thesis
    proof (cases r)
      case (Inl e)
      then show ?thesis using True fs by simp
    next
      case (Inr c)
      let ?st1 = "st\<lparr>sdk_state := w,
                      heap := (heap st)[a1 := (heap st ! a1)\<lparr>config := c, created := now, lastUsed := now\<rparr>],
                      pool_console := pool_console st @ [RefreshedStaleConfig]\<rparr>"
      have same: "heap ?st1 ! a = heap st ! a"
        using ne by (simp add: nth_list_update_any)
      have "a \<notin> set as \<or> \<not> stale now (heap ?st1 ! a)"
        using Cons.prems same by auto
      from Cons.IH [OF this] show ?thesis
        using True fs Inr same by simp
    qed
  qed
qed

lemma maintain_handles:
  "length (handles (sdk_state st)) \<le> length (handles (sdk_state (snd (maintain now as st))))
   \<and> (\<forall>h < length (handles (sdk_state st)).
        \<not> handles (sdk_state st) ! h \<longrightarrow> \<not> handles (sdk_state (snd (maintain now as st))) ! h)"
proof (induction as arbitrary: st)
  case Nil
  then show ?case by simp
next
  case (Cons a1 as)
  show ?case
  proof (cases "stale now (heap st ! a1)")
    case False
    then show ?thesis using Cons.IH [of st] by simp
  next
    case True
    let ?w0 = "close_config (config (heap st ! a1)) (sdk_state st)"
    obtain r w where fs: "fromSubscription ?w0 = (r, w)"
      by (cases "fromSubscription ?w0")
    from fromSubscription_cases [OF fs] show ?thesis
    proof
      assume ok: "r = Inr (length (handles ?w0)) \<and> handles w = handles ?w0 @ [True]"
      let ?st1 = "st\<lparr>sdk_state := w,
                      heap := (heap st)[a1 := (heap st ! a1)\<lparr>config := length (handles ?w0),
                                created := now, lastUsed := now\<rparr>],
                      pool_console := pool_console st @ [RefreshedStaleConfig]\<rparr>"
      have step: "maintain now (a1 # as) st = maintain now as ?st1"
        using True fs ok by simp
      have hw: "handles (sdk_state ?st1) = (handles (sdk_state st))[config (heap st ! a1) := False] @ [True]"
        using ok by (simp add: close_config_def)
      show ?thesis
        unfolding step using Cons.IH [of ?st1] unfolding hw
        by (auto simp: nth_append nth_list_update_any)
    next
      assume bad: "r = Inl SdkError \<and> handles w = handles ?w0"
      then show ?thesis
        using True fs by (auto simp: close_config_def nth_list_update_any)
    qed
  qed
qed



lemma maintain_abort:
  "maintain now as st = (Inl e, st') \<Longrightarrow>
   \<exists>pre a post st1. as = pre @ a # post \<and> maintain now pre st = (Inr (), st1)
     \<and> stale now (heap st1 ! a)
     \<and> fromSubscription (close_config (config (heap st1 ! a)) (sdk_state st1))
         = (Inl e, sdk_state st')
     \<and> st' = st1\<lparr>sdk_state := sdk_state st'\<rparr>"
proof (induction as arbitrary: st)
  case Nil
  then show ?case by simp
next
  case (Cons a1 as)
  show ?case
  proof (cases "stale now (heap st ! a1)")
    case False
    with Cons.prems have "maintain now as st = (Inl e, st')" by simp
    from Cons.IH [OF this] obtain pre a post st1 where
      "as = pre @ a # post" "maintain now pre st = (Inr (), st1)" "stale now (heap st1 ! a)"
      "fromSubscription (close_config (config (heap st1 ! a)) (sdk_state st1)) = (Inl e, sdk_state st')"
      "st' = st1\<lparr>sdk_state := sdk_state st'\<rparr>"
      by blast
    then show ?thesis
      using False by (intro exI [of _ "a1 # pre"] exI [of _ a] exI [of _ post] exI [of _ st1]) simp
  next
    case True
    let ?w0 = "close_config (config (heap st ! a1)) (sdk_state st)"
    obtain r w where fs: "fromSubscription ?w0 = (r, w)"
      by (cases "fromSubscription ?w0")
    show ?thesis
    proof (cases r)
      case (Inl e')
      with Cons.prems True fs have "e' = e" "st' = st\<lparr>sdk_state := w\<rparr>" by auto
      then show ?thesis
        using True fs Inl
        by (intro exI [of _ "[]"] exI [of _ a1] exI [of _ as] exI [of _ st]) simp
    next
      case (Inr c)
      let ?st1 = "st\<lparr>sdk_state := w,
                      heap := (heap st)[a1 := (heap st ! a1)\<lparr>config := c, created := now, lastUsed := now\<rparr>],
                      pool_console := pool_console st @ [RefreshedStaleConfig]\<rparr>"
      have step: "\<And>xs. maintain now (a1 # xs) st = maintain now xs ?st1"
        using True fs Inr by simp
      from Cons.prems have "maintain now as ?st1 = (Inl e, st')" unfolding step .
      from Cons.IH [OF this] obtain pre a post st1 where
        "as = pre @ a # post" "maintain now pre ?st1 = (Inr (), st1)" "stale now (heap st1 ! a)"
        "fromSubscription (close_config (config (heap st1 ! a)) (sdk_state st1)) = (Inl e, sdk_state st')"
        "st' = st1\<lparr>sdk_state := sdk_state st'\<rparr>"
        by blast
      then show ?thesis
        using step [of pre]
        by (intro exI [of _ "a1 # pre"] exI [of _ a] exI [of _ post] exI [of _ st1]) simp
    qed
  qed
qed

lemma fresh_pool_init:
  "initializeConfigPool 10 (new_speech_service \<lparr>handles = [], faults = []\<rparr>) = (Inr (), fresh_pool)"
  unfolding fresh_pool_def by code_simp

lemma pool_wf_init:
  assumes "initializeConfigPool now0 (new_speech_service w) = (Inr (), st)"
  shows "pool_wf st \<and> length (configPool st) = 5 \<and> poolSize st = 5"
proof -
  let ?st0 = "(new_speech_service w)\<lparr>pool_console := pool_console (new_speech_service w) @ [CreatingPool]\<rparr>"
  have run: "init_loop now0 5 ?st0 = (Inr (), st)"
    using assms by (simp add: initializeConfigPool_def new_speech_service_def)
  have "pool_wf ?st0"
    by (simp add: pool_wf_def new_speech_service_def)
  from init_loop_wf [OF run this] show ?thesis
    by (simp add: new_speech_service_def)
qed

lemma pool_wf_fresh: "pool_wf fresh_pool"
  using pool_wf_init [OF fresh_pool_init] by simp

lemma pool_wf_busy: "pool_wf busy_pool"
  unfolding busy_pool_def by (rule run_ops_wf [OF pool_wf_fresh])

lemma pool_wf_overflowed: "pool_wf overflowed_pool"
  unfolding overflowed_pool_def by (rule do_op_wf [OF pool_wf_busy])


lemma find_available_first:
  "find_available st = Some a \<Longrightarrow>
   \<exists>i < length (configPool st). configPool st ! i = a \<and> \<not> inUse (heap st ! a)
      \<and> (\<forall>j < i. inUse (heap st ! (configPool st ! j)))"
  unfolding find_available_def find_Some_iff by auto

lemma acquire_never_returns:
  assumes "s < length (heap st)" "s \<notin> set (configPool st)"
  shows "fst (getConfigFromPool now (run_ops ops st)) \<noteq> Inr s"
proof
  assume eq: "fst (getConfigFromPool now (run_ops ops st)) = Inr s"
  obtain st' where "getConfigFromPool now (run_ops ops st) = (Inr s, st')"
    using eq by (cases "getConfigFromPool now (run_ops ops st)") simp
  from getConfigFromPool_result [OF this]
  have "s \<in> set (configPool st) \<or> s = length (heap (run_ops ops st))"
    by (simp add: run_ops_configPool)
  moreover have "length (heap st) \<le> length (heap (run_ops ops st))"
    by (rule run_ops_heap_length)
  ultimately show False using assms by auto
qed

lemma maintain_append:
  "maintain now (pre @ rest) st =
     (case maintain now pre st of
        (Inl e, s) \<Rightarrow> (Inl e, s)
      | (Inr u, s) \<Rightarrow> maintain now rest s)"
  by (induction pre arbitrary: st) (auto split: prod.splits sum.splits)

lemma pool_wf_faulty: "pool_wf faulty_pool"
proof -
  have "fst (initializeConfigPool 10 (new_speech_service
          \<lparr>handles = [], faults = [False, False, False, False, False, True]\<rparr>)) = Inr ()"
    by code_simp
  then have "initializeConfigPool 10 (new_speech_service
          \<lparr>handles = [], faults = [False, False, False, False, False, True]\<rparr>) = (Inr (), faulty_pool)"
    unfolding faulty_pool_def by (simp add: prod_eq_iff)
  from pool_wf_init [OF this] show ?thesis by simp
qed

lemma pool_wf_exhausted_faulty: "pool_wf exhausted_faulty_pool"
  unfolding exhausted_faulty_pool_def by (rule run_ops_wf [OF pool_wf_faulty])

lemma pool_wf_late_fault: "pool_wf late_fault_pool"
proof -
  have "fst (initializeConfigPool 10 (new_speech_service
          \<lparr>handles = [], faults = [False, False, False, False, False, False, True]\<rparr>)) = Inr ()"
    by code_simp
  then have "initializeConfigPool 10 (new_speech_service
          \<lparr>handles = [], faults = [False, False, False, False, False, False, True]\<rparr>)
          = (Inr (), late_fault_pool)"
    unfolding late_fault_pool_def by (simp add: prod_eq_iff)
  from pool_wf_init [OF this] show ?thesis by simp
qed

subsection \<open>The claims on the pool\<close>

text \<open>
  C4 (as the spec states it). \<open>getConfigFromPool\<close> is claimed never to fail. Take the
  pool initialised over an SDK whose sixth constructor call throws, after five
  acquisitions: all five items are in use, so the sixth acquisition calls the
  constructor for a temporary item, the constructor throws, and the exception leaves
  \<open>getConfigFromPool\<close> with no item created.
\<close>

theorem acquire_fails_counterexample:
  "fst (getConfigFromPool 25 exhausted_faulty_pool) = Inl SdkError
   \<and> configPool exhausted_faulty_pool = [0, 1, 2, 3, 4]
   \<and> length (heap exhausted_faulty_pool) = 5
   \<and> inUse (heap exhausted_faulty_pool ! 0) \<and> inUse (heap exhausted_faulty_pool ! 1)
   \<and> inUse (heap exhausted_faulty_pool ! 2) \<and> inUse (heap exhausted_faulty_pool ! 3)
   \<and> inUse (heap exhausted_faulty_pool ! 4)
   \<and> heap (snd (getConfigFromPool 25 exhausted_faulty_pool)) = heap exhausted_faulty_pool"
  unfolding exhausted_faulty_pool_def faulty_pool_def by code_simp

text \<open>
  C4 (amended). \<open>getConfigFromPool\<close> never waits. When some item that is not temporary is
  not in use, it returns the first such item of the pool, marked in use, with \<open>lastUsed\<close>
  set to the time of the call and \<open>reused\<close> incremented; the SDK is not called and the
  call cannot fail. Otherwise it calls the SDK constructor: when the constructor
  returns, a brand-new item around the new handle, marked temporary and in use, is
  returned, outside the pool, and \<open>created\<close> is incremented; when the constructor throws,
  the call fails with that exception, and items, pool and counters are unchanged.
\<close>

theorem acquire_outcome:
  assumes wf: "pool_wf st"
  shows "if \<exists>b < length (heap st). \<not> temporary (heap st ! b) \<and> \<not> inUse (heap st ! b)
         then \<exists>a st'. getConfigFromPool now st = (Inr a, st')
                \<and> a < length (heap st) \<and> \<not> temporary (heap st ! a) \<and> \<not> inUse (heap st ! a)
                \<and> (\<exists>i < length (configPool st). configPool st ! i = a
                      \<and> (\<forall>j < i. inUse (heap st ! (configPool st ! j))))
                \<and> heap st' = (heap st)[a := (heap st ! a)\<lparr>inUse := True, lastUsed := now\<rparr>]
                \<and> poolStats st' = (poolStats st)\<lparr>reused := reused (poolStats st) + 1\<rparr>
                \<and> configPool st' = configPool st \<and> sdk_state st' = sdk_state st
         else (case fromSubscription (sdk_state st) of
                 (Inr c, w) \<Rightarrow>
                   \<exists>st'. getConfigFromPool now st = (Inr (length (heap st)), st')
                     \<and> heap st' = heap st @
                          [\<lparr>config = c, inUse = True, temporary = True, created = now, lastUsed = now\<rparr>]
                     \<and> c = length (handles (sdk_state st))
                     \<and> handles (sdk_state st') = handles (sdk_state st) @ [True]
                     \<and> poolStats st' = (poolStats st)\<lparr>created_count := created_count (poolStats st) + 1\<rparr>
                     \<and> configPool st' = configPool st
               | (Inl e, w) \<Rightarrow>
                   \<exists>st'. getConfigFromPool now st = (Inl e, st')
                     \<and> heap st' = heap st \<and> configPool st' = configPool st
                     \<and> poolStats st' = poolStats st \<and> sdk_state st' = w
                     \<and> handles w = handles (sdk_state st))"
proof (cases "find_available st")
  case (Some a)
  then have free: "\<exists>b < length (heap st). \<not> temporary (heap st ! b) \<and> \<not> inUse (heap st ! b)"
    using free_slot_iff [OF wf] by simp
  from find_available_Some [OF Some] wf
  have a: "a < length (heap st)" "\<not> temporary (heap st ! a)" "\<not> inUse (heap st ! a)"
    by (auto simp: pool_wf_def)
  from find_available_first [OF Some]
  have first: "\<exists>i < length (configPool st). configPool st ! i = a
                 \<and> (\<forall>j < i. inUse (heap st ! (configPool st ! j)))"
    by blast
  show ?thesis
    using free a first Some by (simp add: getConfigFromPool_def)
next
  case None
  then have nofree: "\<not> (\<exists>b < length (heap st). \<not> temporary (heap st ! b) \<and> \<not> inUse (heap st ! b))"
    using free_slot_iff [OF wf] by simp
  obtain r w where fs: "fromSubscription (sdk_state st) = (r, w)"
    by (cases "fromSubscription (sdk_state st)")
  show ?thesis
  proof (cases r)
    case (Inl e)
    with fs have "handles w = handles (sdk_state st)"
      by (auto dest: fromSubscription_Inl)
    then show ?thesis
      using nofree None fs Inl by (simp add: getConfigFromPool_def Let_def)
  next
    case (Inr c)
    with fs have "c = length (handles (sdk_state st))" "handles w = handles (sdk_state st) @ [True]"
      by (auto dest: fromSubscription_Inr)
    then show ?thesis
      using nofree None fs Inr by (simp add: getConfigFromPool_def Let_def)
  qed
qed

text \<open>
  C4, witness: the first acquisition on the fresh pool, the sixth on the exhausted one,
  and the sixth on the exhausted pool whose SDK throws.
\<close>

theorem acquire_outcome_witness:
  "pool_wf fresh_pool \<and> pool_wf busy_pool \<and> pool_wf exhausted_faulty_pool
   \<and> (\<exists>a st'. getConfigFromPool 20 fresh_pool = (Inr a, st') \<and> a < length (heap fresh_pool)
         \<and> \<not> temporary (heap fresh_pool ! a))
   \<and> (\<exists>st'. getConfigFromPool 25 busy_pool = (Inr (length (heap busy_pool)), st')
         \<and> heap st' = heap busy_pool @
              [\<lparr>config = 5, inUse = True, temporary = True, created = 25, lastUsed = 25\<rparr>])
   \<and> (\<exists>st'. getConfigFromPool 25 exhausted_faulty_pool = (Inl SdkError, st')
         \<and> heap st' = heap exhausted_faulty_pool)"
proof -
  have free: "\<exists>b < length (heap fresh_pool). \<not> temporary (heap fresh_pool ! b) \<and> \<not> inUse (heap fresh_pool ! b)"
    unfolding free_slot_iff [OF pool_wf_fresh] fresh_pool_def by code_simp
  have busy: "\<not> (\<exists>b < length (heap busy_pool). \<not> temporary (heap busy_pool ! b) \<and> \<not> inUse (heap busy_pool ! b))"
    unfolding free_slot_iff [OF pool_wf_busy] busy_pool_def fresh_pool_def by code_simp
  have exh: "\<not> (\<exists>b < length (heap exhausted_faulty_pool).
                 \<not> temporary (heap exhausted_faulty_pool ! b) \<and> \<not> inUse (heap exhausted_faulty_pool ! b))"
    unfolding free_slot_iff [OF pool_wf_exhausted_faulty] exhausted_faulty_pool_def faulty_pool_def
    by code_simp
  have sdk: "fromSubscription (sdk_state busy_pool) = (Inr 5, \<lparr>handles = replicate 6 True, faults = []\<rparr>)"
    unfolding busy_pool_def fresh_pool_def by code_simp
  have sdk2: "fromSubscription (sdk_state exhausted_faulty_pool)
                = (Inl SdkError, \<lparr>handles = replicate 5 True, faults = []\<rparr>)"
    unfolding exhausted_faulty_pool_def faulty_pool_def by code_simp
  note a = acquire_outcome [OF pool_wf_fresh, of 20]
  note b = acquire_outcome [OF pool_wf_busy, of 25]
  note c = acquire_outcome [OF pool_wf_exhausted_faulty, of 25]
  from a free have A: "\<exists>a st'. getConfigFromPool 20 fresh_pool = (Inr a, st') \<and> a < length (heap fresh_pool)
         \<and> \<not> temporary (heap fresh_pool ! a)"
    by auto
  from b busy sdk have B: "\<exists>st'. getConfigFromPool 25 busy_pool = (Inr (length (heap busy_pool)), st')
         \<and> heap st' = heap busy_pool @
              [\<lparr>config = 5, inUse = True, temporary = True, created = 25, lastUsed = 25\<rparr>]"
    by auto
  from c exh sdk2 have C: "\<exists>st'. getConfigFromPool 25 exhausted_faulty_pool = (Inl SdkError, st')
         \<and> heap st' = heap exhausted_faulty_pool"
    by auto
  from A B C pool_wf_fresh pool_wf_busy pool_wf_exhausted_faulty show ?thesis by blast
qed

text \<open>
  C5. Releasing a temporary item closes its config handle and increments \<open>destroyed\<close>,
  and whatever operations follow, no later \<open>getConfigFromPool\<close> returns that item.
  Releasing an item that is not temporary only clears its \<open>inUse\<close> flag and sets
  \<open>lastUsed\<close>; the item is then a candidate of the next \<open>getConfigFromPool\<close>, which
  returns a free item of the pool, and this very item when every other is in use.
\<close>

theorem release_correct:
  assumes wf: "pool_wf st" and s: "s < length (heap st)"
  shows "if temporary (heap st ! s)
         then \<not> handles (sdk_state (returnConfigToPool now s st)) ! config (heap st ! s)
            \<and> destroyed (poolStats (returnConfigToPool now s st)) = destroyed (poolStats st) + 1
            \<and> heap (returnConfigToPool now s st) = heap st
            \<and> (\<forall>ops now'.
                  fst (getConfigFromPool now' (run_ops ops (returnConfigToPool now s st))) \<noteq> Inr s)
         else heap (returnConfigToPool now s st)
                = (heap st)[s := (heap st ! s)\<lparr>inUse := False, lastUsed := now\<rparr>]
            \<and> sdk_state (returnConfigToPool now s st) = sdk_state st
            \<and> poolStats (returnConfigToPool now s st) = poolStats st
            \<and> s \<in> set (configPool (returnConfigToPool now s st))
            \<and> \<not> inUse (heap (returnConfigToPool now s st) ! s)
            \<and> lastUsed (heap (returnConfigToPool now s st) ! s) = now
            \<and> (\<exists>a st'. getConfigFromPool now' (returnConfigToPool now s st) = (Inr a, st')
                  \<and> a \<in> set (configPool st) \<and> \<not> temporary (heap st ! a)
                  \<and> (if \<exists>b \<in> set (configPool st). b \<noteq> s \<and> \<not> inUse (heap st ! b)
                      then \<not> inUse (heap (returnConfigToPool now s st) ! a) else a = s))"
proof (cases "temporary (heap st ! s)")
  case True
  let ?st' = "returnConfigToPool now s st"
  have notin: "s \<notin> set (configPool st)"
    using wf s True by (auto simp: pool_wf_def)
  have cfg: "config (heap st ! s) < length (handles (sdk_state st))"
    using wf s by (simp add: pool_wf_def)
  have 1: "\<not> handles (sdk_state ?st') ! config (heap st ! s)"
    using True cfg by (simp add: returnConfigToPool_def close_config_def)
  have 2: "destroyed (poolStats ?st') = destroyed (poolStats st) + 1"
    using True by (simp add: returnConfigToPool_def)
  have 3: "heap ?st' = heap st"
    using True by (simp add: returnConfigToPool_def)
  have 4: "fst (getConfigFromPool now' (run_ops ops ?st')) \<noteq> Inr s" for ops now'
    using s notin
    by (intro acquire_never_returns) (simp_all add: returnConfigToPool_heap_length
          returnConfigToPool_configPool)
  from True 1 2 3 4 show ?thesis by simp
next
  case False
  let ?st' = "returnConfigToPool now s st"
  have mem: "s \<in> set (configPool st)"
    using wf s False by (auto simp: pool_wf_def)
  have heap': "heap ?st' = (heap st)[s := (heap st ! s)\<lparr>inUse := False, lastUsed := now\<rparr>]"
    and rest: "sdk_state ?st' = sdk_state st" "poolStats ?st' = poolStats st"
      "configPool ?st' = configPool st"
    using False by (simp_all add: returnConfigToPool_def)
  have free: "\<not> inUse (heap ?st' ! s)" and lu: "lastUsed (heap ?st' ! s) = now"
    using s unfolding heap' by simp_all
  have "find_available ?st' \<noteq> None"
    using mem free unfolding find_available_None rest by blast
  then obtain a where fa: "find_available ?st' = Some a" by blast
  from find_available_Some [OF fa]
  have a: "a \<in> set (configPool st)" "\<not> inUse (heap ?st' ! a)"
    by (simp_all add: rest)
  have nt: "\<not> temporary (heap st ! a)"
    using wf a(1) by (auto simp: pool_wf_def)
  have only: "a = s" if "\<not> (\<exists>b \<in> set (configPool st). b \<noteq> s \<and> \<not> inUse (heap st ! b))"
  proof (rule ccontr)
    assume "a \<noteq> s"
    then have "heap ?st' ! a = heap st ! a"
      unfolding heap' by (simp add: nth_list_update_any)
    with a that \<open>a \<noteq> s\<close> show False by auto
  qed
  obtain st'' where run: "getConfigFromPool now' ?st' = (Inr a, st'')"
    using fa by (simp add: getConfigFromPool_def)
  have "\<exists>a st''. getConfigFromPool now' ?st' = (Inr a, st'')
          \<and> a \<in> set (configPool st) \<and> \<not> temporary (heap st ! a)
          \<and> (if \<exists>b \<in> set (configPool st). b \<noteq> s \<and> \<not> inUse (heap st ! b)
              then \<not> inUse (heap ?st' ! a) else a = s)"
    using run a nt only by (intro exI [of _ a] exI [of _ st'']) auto
  then show ?thesis
    using False heap' rest mem free lu by simp
qed

text \<open>C5, witness: releasing the temporary item 5 and the pooled item 1 of the overflowed pool.\<close>

theorem release_correct_witness:
  "pool_wf overflowed_pool \<and> 5 < length (heap overflowed_pool) \<and> 1 < length (heap overflowed_pool)
   \<and> temporary (heap overflowed_pool ! 5)
   \<and> \<not> handles (sdk_state (returnConfigToPool 30 5 overflowed_pool)) ! 5
   \<and> destroyed (poolStats (returnConfigToPool 30 5 overflowed_pool)) = 1
   \<and> fst (getConfigFromPool 40 (run_ops [(31, Release 0)] (returnConfigToPool 30 5 overflowed_pool)))
       \<noteq> Inr 5
   \<and> \<not> temporary (heap overflowed_pool ! 1)
   \<and> (\<exists>st'. getConfigFromPool 40 (returnConfigToPool 30 1 overflowed_pool) = (Inr 1, st'))"
proof -
  have len: "5 < length (heap overflowed_pool)" "1 < length (heap overflowed_pool)"
    unfolding overflowed_pool_def busy_pool_def fresh_pool_def by code_simp+
  have tmp: "temporary (heap overflowed_pool ! 5)" "\<not> temporary (heap overflowed_pool ! 1)"
    unfolding overflowed_pool_def busy_pool_def fresh_pool_def by code_simp+
  have cfg: "config (heap overflowed_pool ! 5) = 5" "destroyed (poolStats overflowed_pool) = 0"
    unfolding overflowed_pool_def busy_pool_def fresh_pool_def by code_simp+
  have others: "\<not> (\<exists>b \<in> set (configPool overflowed_pool). b \<noteq> 1 \<and> \<not> inUse (heap overflowed_pool ! b))"
    unfolding overflowed_pool_def busy_pool_def fresh_pool_def by code_simp
  note t = release_correct [OF pool_wf_overflowed len(1), of 30 40]
  note n = release_correct [OF pool_wf_overflowed len(2), of 30 40]
  from t tmp(1) cfg
  have A: "\<not> handles (sdk_state (returnConfigToPool 30 5 overflowed_pool)) ! 5"
    and B: "destroyed (poolStats (returnConfigToPool 30 5 overflowed_pool)) = 1"
    and C: "\<forall>ops now'. fst (getConfigFromPool now'
                (run_ops ops (returnConfigToPool 30 5 overflowed_pool))) \<noteq> Inr 5"
    by simp_all
  from C have C': "fst (getConfigFromPool 40
      (run_ops [(31, Release 0)] (returnConfigToPool 30 5 overflowed_pool))) \<noteq> Inr 5"
    by blast
  from n tmp(2) others
  have D: "\<exists>st'. getConfigFromPool 40 (returnConfigToPool 30 1 overflowed_pool) = (Inr 1, st')"
    by auto
  from A B C' D len tmp pool_wf_overflowed show ?thesis by blast
qed



text \<open>
  C9 (as the spec states it). A failing refresh is claimed not to stop the sweep. Take a
  pool initialised at time 10, all five items stale at time 400000, over an SDK whose
  next constructor call throws and every later one succeeds: the sweep ends with the
  exception at item 0, and item 1, stale too, is not refreshed: its entry is unchanged
  and its handle was not even closed, although its refresh would have succeeded.
\<close>

theorem maintenance_isolation_counterexample:
  "fst (performPoolMaintenance 400000 faulty_pool) = Inl SdkError
   \<and> configPool faulty_pool = [0, 1, 2, 3, 4]
   \<and> stale 400000 (heap faulty_pool ! 1)
   \<and> heap (snd (performPoolMaintenance 400000 faulty_pool)) ! 1 = heap faulty_pool ! 1
   \<and> handles (sdk_state (snd (performPoolMaintenance 400000 faulty_pool))) ! 1
   \<and> faults (sdk_state (snd (performPoolMaintenance 400000 faulty_pool))) = []"
  unfolding faulty_pool_def by code_simp

text \<open>
  C9 (amended). When the refresh of a stale item throws, the sweep stops there and the
  exception leaves \<open>performPoolMaintenance\<close>: for every position of the pool, if the items
  before it are swept without a throw and the constructor throws for the stale item at
  it, the sweep returns that exception in the state the items before it left. The old
  handle of the failing item has been closed; the failing item itself and every item
  that is not before it in the pool are as they were before the sweep.
\<close>

theorem maintenance_stops_at_failure:
  assumes wf: "pool_wf st"
    and split: "configPool st = pre @ a # post"
    and pre: "maintain now pre st = (Inr (), st1)"
    and stale: "stale now (heap st ! a)"
    and fail: "fromSubscription (close_config (config (heap st ! a)) (sdk_state st1)) = (Inl e, w)"
  shows "performPoolMaintenance now st = (Inl e, st1\<lparr>sdk_state := w\<rparr>)
       \<and> handles w = (handles (sdk_state st1))[config (heap st ! a) := False]
       \<and> config (heap st ! a) < length (handles w)
       \<and> \<not> handles w ! config (heap st ! a)
       \<and> heap st1 ! a = heap st ! a
       \<and> (\<forall>b. b \<notin> set pre \<longrightarrow> heap st1 ! b = heap st ! b)"
proof -
  have notin: "a \<notin> set pre"
    using wf split by (auto simp: pool_wf_def)
  have frame: "heap st1 ! b = heap st ! b" if "b \<notin> set pre" for b
  proof -
    have "heap (snd (maintain now pre st)) ! b = heap st ! b"
      using that by (intro maintain_frame) simp
    then show ?thesis using pre by simp
  qed
  have same: "heap st1 ! a = heap st ! a"
    using notin by (rule frame)
  have a_len: "a < length (heap st)"
    using wf split by (auto simp: pool_wf_def)
  have cfg: "config (heap st ! a) < length (handles (sdk_state st))"
    using wf a_len by (simp add: pool_wf_def)
  have "length (handles (sdk_state st)) \<le> length (handles (sdk_state (snd (maintain now pre st))))"
    using maintain_handles [of st now pre] by blast
  then have cfg1: "config (heap st ! a) < length (handles (sdk_state st1))"
    using cfg pre by simp
  have hw: "handles w = (handles (sdk_state st1))[config (heap st ! a) := False]"
    using fromSubscription_Inl [OF fail] by (simp add: close_config_def)
  have closed: "\<not> handles w ! config (heap st ! a)" and lenw: "config (heap st ! a) < length (handles w)"
    unfolding hw using cfg1 by simp_all
  have "maintain now (a # post) st1 = (Inl e, st1\<lparr>sdk_state := w\<rparr>)"
    using stale fail same by simp
  then have "maintain now (pre @ a # post) st = (Inl e, st1\<lparr>sdk_state := w\<rparr>)"
    using pre by (simp add: maintain_append)
  then have run: "performPoolMaintenance now st = (Inl e, st1\<lparr>sdk_state := w\<rparr>)"
    using split by (simp add: performPoolMaintenance_def)
  from run hw lenw closed same frame show ?thesis by blast
qed

text \<open>
  C9, witness: a pool whose SDK throws at the seventh constructor call: the sweep
  refreshes item 0, throws at item 1 with its handle closed, and leaves item 2 alone.
\<close>

theorem maintenance_stops_at_failure_witness:
  "pool_wf late_fault_pool
   \<and> configPool late_fault_pool = [0] @ 1 # [2, 3, 4]
   \<and> fst (maintain 400000 [0] late_fault_pool) = Inr ()
   \<and> stale 400000 (heap late_fault_pool ! 1)
   \<and> fst (performPoolMaintenance 400000 late_fault_pool) = Inl SdkError
   \<and> heap (snd (performPoolMaintenance 400000 late_fault_pool))
       = heap (snd (maintain 400000 [0] late_fault_pool))
   \<and> \<not> handles (sdk_state (snd (performPoolMaintenance 400000 late_fault_pool))) ! 1
   \<and> heap (snd (performPoolMaintenance 400000 late_fault_pool)) ! 2 = heap late_fault_pool ! 2"
proof -
  let ?st1 = "snd (maintain 400000 [0] late_fault_pool)"
  have split: "configPool late_fault_pool = [0] @ 1 # [2, 3, 4]"
    unfolding late_fault_pool_def by code_simp
  have r0: "fst (maintain 400000 [0] late_fault_pool) = Inr ()"
    unfolding late_fault_pool_def by code_simp
  then have pre: "maintain 400000 [0] late_fault_pool = (Inr (), ?st1)"
    by (simp add: prod_eq_iff)
  have stale: "stale 400000 (heap late_fault_pool ! 1)"
    unfolding late_fault_pool_def by code_simp
  have cfg: "config (heap late_fault_pool ! 1) = 1"
    unfolding late_fault_pool_def by code_simp
  let ?w = "snd (fromSubscription (close_config (config (heap late_fault_pool ! 1)) (sdk_state ?st1)))"
  have "fst (fromSubscription (close_config (config (heap late_fault_pool ! 1)) (sdk_state ?st1)))
          = Inl SdkError"
    unfolding late_fault_pool_def by code_simp
  then have fail: "fromSubscription (close_config (config (heap late_fault_pool ! 1)) (sdk_state ?st1))
          = (Inl SdkError, ?w)"
    by (simp add: prod_eq_iff)
  note r = maintenance_stops_at_failure [OF pool_wf_late_fault split pre stale fail]
  from r have run: "performPoolMaintenance 400000 late_fault_pool = (Inl SdkError, ?st1\<lparr>sdk_state := ?w\<rparr>)"
    and closed: "\<not> handles ?w ! config (heap late_fault_pool ! 1)"
    and frame: "\<forall>b. b \<notin> set [0::nat] \<longrightarrow> heap ?st1 ! b = heap late_fault_pool ! b"
    by blast+
  from frame have two: "heap ?st1 ! 2 = heap late_fault_pool ! 2"
    by (simp del: maintain.simps)
  have r1: "fst (performPoolMaintenance 400000 late_fault_pool) = Inl SdkError"
    and r2: "heap (snd (performPoolMaintenance 400000 late_fault_pool)) = heap ?st1"
    and r3: "sdk_state (snd (performPoolMaintenance 400000 late_fault_pool)) = ?w"
    unfolding run by (simp_all del: maintain.simps)
  have r4: "\<not> handles (sdk_state (snd (performPoolMaintenance 400000 late_fault_pool))) ! 1"
    using closed unfolding r3 cfg .
  have r5: "heap (snd (performPoolMaintenance 400000 late_fault_pool)) ! 2 = heap late_fault_pool ! 2"
    unfolding r2 by (rule two)
  from pool_wf_late_fault split r0 stale r1 r2 r4 r5 show ?thesis by blast
qed

text \<open>
  C10. After a successful \<open>initializeConfigPool\<close> on a new service the pool lists exactly
  \<open>poolSize\<close> = 5 distinct items, and whatever acquisitions, releases and sweeps follow,
  the pool is the same list of the same items, none of them temporary, and no temporary
  item is in it.
\<close>

theorem pool_slots_fixed:
  assumes init: "initializeConfigPool now0 (new_speech_service w) = (Inr (), st)"
  shows "length (configPool st) = 5 \<and> poolSize st = 5 \<and> distinct (configPool st)
       \<and> configPool (run_ops ops st) = configPool st
       \<and> (\<forall>a \<in> set (configPool st).
            a < length (heap (run_ops ops st)) \<and> \<not> temporary (heap (run_ops ops st) ! a))
       \<and> (\<forall>a < length (heap (run_ops ops st)).
            temporary (heap (run_ops ops st) ! a) \<longrightarrow> a \<notin> set (configPool st))"
proof -
  from pool_wf_init [OF init]
  have wf: "pool_wf st" and len: "length (configPool st) = 5" and ps: "poolSize st = 5"
    by simp_all
  have wf': "pool_wf (run_ops ops st)" using wf by (rule run_ops_wf)
  have same: "configPool (run_ops ops st) = configPool st" by (rule run_ops_configPool)
  show ?thesis
    using wf wf' len ps same unfolding pool_wf_def by auto
qed

text \<open>C10, witness: an acquisition, a release and a sweep on the fresh pool.\<close>

theorem pool_slots_fixed_witness:
  "configPool (run_ops [(20, Acquire), (30, Release 0), (400000, Maintenance)] fresh_pool)
     = configPool fresh_pool
   \<and> length (configPool fresh_pool) = 5"
  using pool_slots_fixed [OF fresh_pool_init,
      of "[(20, Acquire), (30, Release 0), (400000, Maintenance)]"]
  by simp

end
